theory Spec2Isabelle
  imports Complex_Main
begin

section \<open>The pump monitor (class AbstractPump of pump_watcher.py)\<close>

text \<open>
  The status of the line is a Python int: \<open>PUMP_ON = 1\<close>, \<open>PUMP_OFF = 0\<close>, and the
  default \<open>get_status\<close> of AbstractPump returns \<open>-1\<close>.
\<close>

definition PUMP_ON :: int where
  "PUMP_ON = 1"

definition PUMP_OFF :: int where
  "PUMP_OFF = 0"

text \<open>
  A logger is an object of the module \<open>loggers\<close>, which is outside this file: only its
  method \<open>log\<close> is called. It is modelled by what \<open>log\<close> does to the outside world \<open>'w\<close>
  when called with a list of values: it returns the new world and, when it raises, the
  exception. An entry of \<open>self.loggers\<close> that is falsy (\<open>None\<close>) is \<open>None\<close> here.
\<close>

datatype error = LoggerError

type_synonym 'w logger = "int list \<Rightarrow> 'w \<Rightarrow> error option \<times> 'w"

text \<open>One invocation of \<open>log\<close>: the position of the logger in \<open>self.loggers\<close> and the argument.\<close>

type_synonym call = "nat \<times> int list"

record 'w pump =
  loggers :: "'w logger option list"
  pin :: int
  prev_status :: "int option"

text \<open>\<open>__init__\<close>: no logger, the pin stored, no previous status.\<close>

definition init :: "int \<Rightarrow> 'w pump" where
  "init p = \<lparr>loggers = [], pin = p, prev_status = None\<rparr>"

text \<open>\<open>get_status\<close> of AbstractPump; the hardware subclasses override it.\<close>

definition get_status :: "int \<Rightarrow> int" where
  "get_status pin_arg = - 1"

definition add_listener :: "'w logger option \<Rightarrow> 'w pump \<Rightarrow> 'w pump" where
  "add_listener new_logger p = p\<lparr>loggers := loggers p @ [new_logger]\<rparr>"

text \<open>
  The loop \<open>for l in self.loggers: if l: l.log([status])\<close>, from position \<open>i\<close> on. It
  returns the exception that ended it (if any), the invocations of \<open>log\<close> it made, in
  order, and the world it leaves. An exception of \<open>log\<close> is not caught: the loop stops
  there.
\<close>

fun fan_out :: "'w logger option list \<Rightarrow> int \<Rightarrow> nat \<Rightarrow> 'w \<Rightarrow> error option \<times> call list \<times> 'w" where
  "fan_out [] status i w = (None, [], w)"
| "fan_out (None # ls) status i w = fan_out ls status (Suc i) w"
| "fan_out (Some l # ls) status i w =
     (case l [status] w of
        (Some e, w') \<Rightarrow> (Some e, [(i, [status])], w')
      | (None, w') \<Rightarrow>
          (case fan_out ls status (Suc i) w' of
             (r, cs, w'') \<Rightarrow> (r, (i, [status]) # cs, w'')))"

text \<open>
  What one call of \<open>event\<close> did: it returned early (\<open>Skipped\<close>), it ran the loop over the
  loggers to its end with the status shown (\<open>Completed\<close>), or an exception of a logger
  left the loop and \<open>event\<close> (\<open>Aborted\<close>).
\<close>

datatype outcome = Skipped | Completed int | Aborted int error

text \<open>
  \<open>event\<close>. The status is read with the \<open>get_status\<close> in force (\<open>gs\<close>); the two
  \<open>print\<close> calls are not modelled. \<open>status == self.prev_status\<close> is false while
  \<open>prev_status\<close> is \<open>None\<close>. The assignment to \<open>prev_status\<close> comes after the loop, so
  it is not reached when a logger raises.
\<close>

definition event :: "(int \<Rightarrow> int) \<Rightarrow> 'w pump \<Rightarrow> 'w \<Rightarrow> outcome \<times> call list \<times> 'w pump \<times> 'w" where
  "event gs p w =
     (let status = gs (pin p) in
      if Some status = prev_status p then (Skipped, [], p, w)
      else
        (case fan_out (loggers p) status 0 w of
           (Some e, cs, w') \<Rightarrow> (Aborted status e, cs, p, w')
         | (None, cs, w') \<Rightarrow> (Completed status, cs, p\<lparr>prev_status := Some status\<rparr>, w')))"

text \<open>
  Successive calls of \<open>event\<close>, one for each reading of the line, in order. The caller
  (the GPIO library's callback thread) calls again after a call that raised.
\<close>

fun run :: "int list \<Rightarrow> 'w pump \<Rightarrow> 'w \<Rightarrow> (outcome \<times> call list) list \<times> 'w pump \<times> 'w" where
  "run [] p w = ([], p, w)"
| "run (r # rs) p w =
     (case event (\<lambda>_. r) p w of
        (out, cs, p', w') \<Rightarrow>
          (case run rs p' w' of
             (outs, p'', w'') \<Rightarrow> ((out, cs) # outs, p'', w'')))"




text \<open>No logger of the list ever raises.\<close>

definition never_raises :: "'w logger option list \<Rightarrow> bool" where
  "never_raises ls = (\<forall>l args w. Some l \<in> set ls \<longrightarrow> fst (l args w) = None)"

text \<open>
  A logger that records its argument in the world (a list of the arguments received)
  and returns, and one that raises without changing the world.
\<close>

definition recorder :: "int list list logger" where
  "recorder args w = (None, w @ [args])"

definition failing :: "int list list logger" where
  "failing args w = (Some LoggerError, w)"

section \<open>The sample generator (gen_random_samples of pump_watcher.py)\<close>

text \<open>
  The module \<open>random\<close> is outside this file. Its generator is modelled by the values it
  will return: \<open>floats\<close> are the results of the coming calls of \<open>random.random()\<close>, and
  \<open>ints\<close> are the raw numbers from which the coming calls of \<open>random.randint\<close> take their
  results. A call takes the next value; when none is left the model stops with \<open>None\<close>
  (the call asked for more randomness than the script holds).
\<close>

record rng =
  floats :: "real list"
  ints :: "nat list"

definition random_random :: "rng \<Rightarrow> (real \<times> rng) option" where
  "random_random g =
     (case floats g of [] \<Rightarrow> None | r # rs \<Rightarrow> Some (r, g\<lparr>floats := rs\<rparr>))"

text \<open>
  \<open>random.randint(a, b)\<close> returns an integer \<open>N\<close> with \<open>a \<le> N \<le> b\<close>, both ends included
  (it is only called here with \<open>a \<le> b\<close>): the raw number is reduced to that range.
\<close>

definition random_randint :: "int \<Rightarrow> int \<Rightarrow> rng \<Rightarrow> (int \<times> rng) option" where
  "random_randint a b g =
     (case ints g of [] \<Rightarrow> None
      | n # ns \<Rightarrow> Some (a + int (n mod nat (b - a + 1)), g\<lparr>ints := ns\<rparr>))"

definition gen_random_event :: "real \<Rightarrow> rng \<Rightarrow> (int \<times> rng) option" where
  "gen_random_event threshold g =
     (case random_random g of
        None \<Rightarrow> None
      | Some (r, g') \<Rightarrow> Some (if r \<ge> threshold then PUMP_ON else PUMP_OFF, g'))"

definition gen_mainly_on :: "rng \<Rightarrow> (int \<times> rng) option" where
  "gen_mainly_on g = gen_random_event 0.2 g"

definition gen_mainly_off :: "rng \<Rightarrow> (int \<times> rng) option" where
  "gen_mainly_off g = gen_random_event 0.8 g"

text \<open>
  An entry of \<open>data\<close>: the timestamp, the sample id and the event. The clock \<open>ts\<close> is
  counted in whole seconds as an integer (every \<open>timedelta\<close> added is a whole number of
  seconds, and the string \<open>%Y-%m-%d %H:%M:%S UTC\<close> stored in the entry is determined by
  the second). The upper limit of \<open>datetime\<close> (the year 9999) is not modelled.
\<close>

record sample =
  entry_ts :: int
  entry_id :: int
  entry_event :: int

text \<open>The local variables of \<open>gen_random_samples\<close>, with the generator.\<close>

record gen_state =
  data :: "sample list"
  ts :: int
  sample_id :: int
  gen :: rng

text \<open>The first half of the loop body: the PUMP_ON candidate.\<close>

definition on_phase :: "gen_state \<Rightarrow> gen_state option" where
  "on_phase st =
     (case gen_mainly_on (gen st) of
        None \<Rightarrow> None
      | Some (ev, g1) \<Rightarrow>
          if ev = PUMP_ON then
            (case random_randint 0 (100 * 60) g1 of
               None \<Rightarrow> None
             | Some (d, g2) \<Rightarrow>
                 Some \<lparr>data = data st @
                         [\<lparr>entry_ts = ts st + (45 * 60 + d), entry_id = sample_id st,
                           entry_event = ev\<rparr>],
                       ts = ts st + (45 * 60 + d),
                       sample_id = sample_id st + 1,
                       gen = g2\<rparr>)
          else Some (st\<lparr>gen := g1\<rparr>))"

text \<open>The second half of the loop body: the PUMP_OFF candidate.\<close>

definition off_phase :: "gen_state \<Rightarrow> gen_state option" where
  "off_phase st =
     (case gen_mainly_off (gen st) of
        None \<Rightarrow> None
      | Some (ev, g1) \<Rightarrow>
          if ev = PUMP_OFF then
            (case random_randint 0 (10 * 60) g1 of
               None \<Rightarrow> None
             | Some (d, g2) \<Rightarrow>
                 Some \<lparr>data = data st @
                         [\<lparr>entry_ts = ts st + d, entry_id = sample_id st, entry_event = ev\<rparr>],
                       ts = ts st + d,
                       sample_id = sample_id st + 1,
                       gen = g2\<rparr>)
          else Some (st\<lparr>gen := g1\<rparr>))"

definition cycle :: "gen_state \<Rightarrow> gen_state option" where
  "cycle st = (case on_phase st of None \<Rightarrow> None | Some st1 \<Rightarrow> off_phase st1)"

text \<open>
  \<open>while sample_id <= length\<close>. Every turn of the loop takes two values of \<open>floats\<close>, so
  the recursion ends; it ends with \<open>None\<close> when the script is used up before
  \<open>sample_id\<close> exceeds \<open>len\<close>.
\<close>

function gen_loop :: "int \<Rightarrow> gen_state \<Rightarrow> sample list option" where
  "gen_loop len st =
     (if sample_id st \<le> len then
        (case cycle st of None \<Rightarrow> None | Some st' \<Rightarrow> gen_loop len st')
      else Some (data st))"
  by pat_completeness auto
termination
  by (relation "measure (\<lambda>(len, st). length (floats (gen st)))")
    (auto simp: cycle_def on_phase_def off_phase_def gen_mainly_on_def gen_mainly_off_def
      gen_random_event_def random_random_def random_randint_def
      split: option.splits list.splits if_splits)

declare gen_loop.simps [simp del]

text \<open>The slice \<open>xs[:n]\<close> of Python; a negative \<open>n\<close> counts from the end.\<close>

definition slice_to :: "int \<Rightarrow> 'a list \<Rightarrow> 'a list" where
  "slice_to n xs = (if 0 \<le> n then take (nat n) xs else take (length xs - nat (- n)) xs)"

text \<open>\<open>gen_random_samples(length)\<close>, called at the instant \<open>now\<close> (\<open>utcnow()\<close>).\<close>

definition gen_random_samples :: "int \<Rightarrow> int \<Rightarrow> rng \<Rightarrow> sample list option" where
  "gen_random_samples len now g =
     (case gen_loop len \<lparr>data = [], ts = now, sample_id = 1, gen = g\<rparr> of
        None \<Rightarrow> None
      | Some d \<Rightarrow> Some (slice_to len d))"

text \<open>
  The time an entry lies after the instant \<open>prev\<close>: 45 to 145 minutes for PUMP_ON, 0 to
  10 minutes for PUMP_OFF, both ends included; \<open>dwell_ok\<close> says so of every entry of a
  list, each measured from the entry before it and the first from \<open>prev\<close>.
\<close>

definition dwell_entry :: "int \<Rightarrow> sample \<Rightarrow> bool" where
  "dwell_entry prev e =
     (if entry_event e = PUMP_ON
      then 45 * 60 \<le> entry_ts e - prev \<and> entry_ts e - prev \<le> 145 * 60
      else entry_event e = PUMP_OFF \<and> 0 \<le> entry_ts e - prev \<and> entry_ts e - prev \<le> 10 * 60)"

fun dwell_ok :: "int \<Rightarrow> sample list \<Rightarrow> bool" where
  "dwell_ok prev [] = True"
| "dwell_ok prev (e # es) = (dwell_entry prev e \<and> dwell_ok (entry_ts e) es)"

definition last_ts :: "int \<Rightarrow> sample list \<Rightarrow> int" where
  "last_ts now xs = (if xs = [] then now else entry_ts (last xs))"

text \<open>The invariant of the loop.\<close>

definition gen_inv :: "int \<Rightarrow> gen_state \<Rightarrow> bool" where
  "gen_inv now st =
     (sample_id st = int (length (data st)) + 1
      \<and> map entry_id (data st) = map int [1..<Suc (length (data st))]
      \<and> ts st = last_ts now (data st)
      \<and> dwell_ok now (data st))"

text \<open>
  The number of candidates that a script of \<open>random()\<close> values accepts, read two by two
  as the loop reads it: the first of a pair decides the PUMP_ON candidate, the second the
  PUMP_OFF candidate.
\<close>

fun accepted :: "real list \<Rightarrow> nat" where
  "accepted (r1 # r2 # rs) =
     (if r1 \<ge> 0.2 then 1 else 0) + (if r2 \<ge> 0.8 then 0 else 1) + accepted rs"
| "accepted rs = 0"

text \<open>
  One call of \<open>gen_mainly_on\<close> or \<open>gen_mainly_off\<close> on the draw \<open>r\<close>, and whether it gives
  the event of its candidate; \<open>grid_count acc n\<close> counts the accepted draws among the
  \<open>n\<close> equally spaced draws \<open>0/n, 1/n, ..., (n-1)/n\<close> of the interval from 0 to 1.
\<close>

definition one_draw :: "real \<Rightarrow> rng" where
  "one_draw r = \<lparr>floats = [r], ints = []\<rparr>"

definition on_accepted :: "real \<Rightarrow> bool" where
  "on_accepted r = (map_option fst (gen_mainly_on (one_draw r)) = Some PUMP_ON)"

definition off_accepted :: "real \<Rightarrow> bool" where
  "off_accepted r = (map_option fst (gen_mainly_off (one_draw r)) = Some PUMP_OFF)"

definition grid_count :: "(real \<Rightarrow> bool) \<Rightarrow> nat \<Rightarrow> nat" where
  "grid_count acc n = length (filter (\<lambda>k. acc (real k / real n)) [0..<n])"

section \<open>Properties of the monitor\<close>

lemma never_raises_Cons:
  "never_raises (x # ls) = ((case x of None \<Rightarrow> True | Some l \<Rightarrow> \<forall>args w. fst (l args w) = None) \<and> never_raises ls)"
  by (auto simp: never_raises_def split: option.splits)

lemma fan_out_completes:
  "never_raises ls \<Longrightarrow> fst (fan_out ls s i w) = None"
proof (induction ls s i w rule: fan_out.induct)
  case (1 status i w)
  then show ?case by simp
next
  case (2 ls status i w)
  then show ?case by (simp add: never_raises_Cons)
next
  case (3 l ls status i w)
  from 3(2) have l: "fst (l [status] w) = None" and ls: "never_raises ls"
    by (simp_all add: never_raises_Cons)
  obtain w' where w': "l [status] w = (None, w')" using l by (cases "l [status] w") auto
  from 3(1)[OF w'[symmetric] refl ls] w' show ?case
    by (simp add: case_prod_beta)
qed

lemma fan_out_calls:
  "never_raises ls \<Longrightarrow>
   fst (snd (fan_out ls s i w)) = map (\<lambda>(j, l). (j, [s])) (filter (\<lambda>(j, l). l \<noteq> None) (enumerate i ls))"
proof (induction ls s i w rule: fan_out.induct)
  case (1 status i w)
  then show ?case by simp
next
  case (2 ls status i w)
  then show ?case by (simp add: never_raises_Cons)
next
  case (3 l ls status i w)
  from 3(2) have l: "fst (l [status] w) = None" and ls: "never_raises ls"
    by (simp_all add: never_raises_Cons)
  obtain w' where w': "l [status] w = (None, w')" using l by (cases "l [status] w") auto
  from 3(1)[OF w'[symmetric] refl ls] w' show ?case
    by (simp add: case_prod_beta)
qed






lemma event_calls:
  "Some (gs (pin p)) \<noteq> prev_status p \<Longrightarrow>
   fst (snd (event gs p w)) = fst (snd (fan_out (loggers p) (gs (pin p)) 0 w))"
  by (auto simp: event_def Let_def split: prod.splits option.splits)

lemma event_outcome:
  "Some (gs (pin p)) \<noteq> prev_status p \<Longrightarrow>
   fst (event gs p w) =
     (case fst (fan_out (loggers p) (gs (pin p)) 0 w) of
        None \<Rightarrow> Completed (gs (pin p)) | Some e \<Rightarrow> Aborted (gs (pin p)) e)"
  by (auto simp: event_def Let_def split: prod.splits option.splits)

lemma event_world:
  "Some (gs (pin p)) \<noteq> prev_status p \<Longrightarrow>
   snd (snd (snd (event gs p w))) = snd (snd (fan_out (loggers p) (gs (pin p)) 0 w))"
  by (auto simp: event_def Let_def split: prod.splits option.splits)











text \<open>
  Claim C2 says that a reading of \<open>-1\<close> changes neither the previous status nor reaches a
  logger. On a new monitor with one logger, the default \<open>get_status\<close> gives \<open>-1\<close>, and
  \<open>event\<close> passes \<open>[-1]\<close> to the logger and stores \<open>-1\<close> as the previous status.
\<close>

theorem unknown_reading_reported_counterexample:
  "event get_status (add_listener (Some recorder) (init 4)) [] =
     (Completed (- 1), [(0, [- 1])],
      \<lparr>loggers = [Some recorder], pin = 4, prev_status = Some (- 1)\<rparr>, [[- 1]])"
  by (simp add: event_def Let_def get_status_def add_listener_def init_def recorder_def)

text \<open>
  Claim C2, amended. \<open>event\<close> has no case for \<open>-1\<close>: the reading \<open>-1\<close> is skipped exactly
  when the previous status is already \<open>-1\<close>; otherwise the loop over the loggers runs with
  \<open>-1\<close>, and when no logger raises every non-empty logger receives \<open>[-1]\<close> and \<open>-1\<close>
  becomes the previous status.
\<close>

theorem unknown_reading_like_any_other:
  "(prev_status p = Some (- 1) \<longrightarrow> event get_status p w = (Skipped, [], p, w))
   \<and> (prev_status p \<noteq> Some (- 1) \<longrightarrow> fst (event get_status p w) \<noteq> Skipped
        \<and> fst (snd (event get_status p w)) = fst (snd (fan_out (loggers p) (- 1) 0 w)))
   \<and> (prev_status p \<noteq> Some (- 1) \<longrightarrow> never_raises (loggers p) \<longrightarrow>
        fst (event get_status p w) = Completed (- 1)
        \<and> prev_status (fst (snd (snd (event get_status p w)))) = Some (- 1)
        \<and> fst (snd (event get_status p w)) =
            map (\<lambda>(j, l). (j, [- 1])) (filter (\<lambda>(j, l). l \<noteq> None) (enumerate 0 (loggers p))))"
proof (intro conjI impI)
  assume "prev_status p = Some (- 1)"
  then show "event get_status p w = (Skipped, [], p, w)"
    by (simp add: event_def Let_def get_status_def)
next
  assume "prev_status p \<noteq> Some (- 1)"
  then show "fst (event get_status p w) \<noteq> Skipped"
    by (auto simp: event_def Let_def get_status_def split: prod.splits option.splits)
next
  assume "prev_status p \<noteq> Some (- 1)"
  then show "fst (snd (event get_status p w)) = fst (snd (fan_out (loggers p) (- 1) 0 w))"
    by (auto simp: event_def Let_def get_status_def split: prod.splits option.splits)
next
  assume a: "prev_status p \<noteq> Some (- 1)" and nr: "never_raises (loggers p)"
  have f: "fst (fan_out (loggers p) (- 1) 0 w) = None" by (rule fan_out_completes[OF nr])
  from a f show "fst (event get_status p w) = Completed (- 1)"
    by (auto simp: event_def Let_def get_status_def split: prod.splits option.splits)
  from a f show "prev_status (fst (snd (snd (event get_status p w)))) = Some (- 1)"
    by (auto simp: event_def Let_def get_status_def split: prod.splits option.splits)
  from a show "fst (snd (event get_status p w)) =
            map (\<lambda>(j, l). (j, [- 1])) (filter (\<lambda>(j, l). l \<noteq> None) (enumerate 0 (loggers p)))"
    using fan_out_calls[OF nr, of "- 1" 0 w]
    by (auto simp: event_def Let_def get_status_def split: prod.splits option.splits)
qed

theorem unknown_reading_like_any_other_witness:
  "prev_status (init 4 :: int list list pump) \<noteq> Some (- 1)
   \<and> never_raises (loggers (add_listener (Some recorder) (init 4)))
   \<and> fst (event get_status (add_listener (Some recorder) (init 4)) []) = Completed (- 1)
   \<and> prev_status (add_listener (Some recorder) (init 4)\<lparr>prev_status := Some (- 1)\<rparr>) = Some (- 1)
   \<and> event get_status (add_listener (Some recorder) (init 4)\<lparr>prev_status := Some (- 1)\<rparr>) []
       = (Skipped, [], add_listener (Some recorder) (init 4)\<lparr>prev_status := Some (- 1)\<rparr>, [])"
proof -
  let ?p = "add_listener (Some recorder) (init 4)"
  have h1: "never_raises (loggers ?p)"
    by (simp add: add_listener_def init_def never_raises_def recorder_def)
  have h2: "prev_status ?p \<noteq> Some (- 1)"
    by (simp add: add_listener_def init_def)
  have h3: "prev_status (?p\<lparr>prev_status := Some (- 1)\<rparr>) = Some (- 1)" by simp
  from unknown_reading_like_any_other[of ?p "[]"] h1 h2
    unknown_reading_like_any_other[of "?p\<lparr>prev_status := Some (- 1)\<rparr>" "[]"] h3
  show ?thesis by (simp add: init_def)
qed

text \<open>
  Claim C3 says that the previous status is stored before the loggers are called, so that
  after a logger raised the same reading is not delivered again. With a recording logger
  followed by a raising one, two successive readings of ON both reach the recording
  logger, and the previous status is still \<open>None\<close> after them.
\<close>

theorem raising_logger_reported_again_counterexample:
  "run [1, 1] (add_listener (Some failing) (add_listener (Some recorder) (init 4))) [] =
     ([(Aborted 1 LoggerError, [(0, [1]), (1, [1])]), (Aborted 1 LoggerError, [(0, [1]), (1, [1])])],
      \<lparr>loggers = [Some recorder, Some failing], pin = 4, prev_status = None\<rparr>,
      [[1], [1]])"
  by (simp add: event_def add_listener_def init_def recorder_def failing_def)

text \<open>
  Claim C3, amended. \<open>prev_status\<close> is assigned after the loop over the loggers. When a
  logger raises on a changed status, the exception leaves \<open>event\<close> with the monitor as it
  was, and the next call with the same status is not skipped: it runs the loop over the
  loggers again.
\<close>

theorem raising_logger_not_committed:
  assumes "Some s \<noteq> prev_status p" and "fst (fan_out (loggers p) s 0 w) = Some e"
  shows "fst (event (\<lambda>_. s) p w) = Aborted s e
         \<and> fst (snd (snd (event (\<lambda>_. s) p w))) = p
         \<and> fst (event (\<lambda>_. s) (fst (snd (snd (event (\<lambda>_. s) p w)))) w2) \<noteq> Skipped
         \<and> fst (snd (event (\<lambda>_. s) (fst (snd (snd (event (\<lambda>_. s) p w)))) w2))
             = fst (snd (fan_out (loggers p) s 0 w2))"
proof -
  from assms have 1: "fst (event (\<lambda>_. s) p w) = Aborted s e"
    and 2: "fst (snd (snd (event (\<lambda>_. s) p w))) = p"
    by (auto simp: event_def split: prod.splits option.splits)
  from assms(1) have 3: "fst (event (\<lambda>_. s) p w2) \<noteq> Skipped"
    and 4: "fst (snd (event (\<lambda>_. s) p w2)) = fst (snd (fan_out (loggers p) s 0 w2))"
    by (auto simp: event_def split: prod.splits option.splits)
  from 1 2 3 4 show ?thesis by simp
qed

theorem raising_logger_not_committed_witness:
  "Some 1 \<noteq> prev_status (add_listener (Some failing) (init 4))
   \<and> fst (fan_out (loggers (add_listener (Some failing) (init 4))) 1 0 []) = Some LoggerError
   \<and> fst (event (\<lambda>_. 1) (add_listener (Some failing) (init 4)) []) = Aborted 1 LoggerError
   \<and> fst (snd (event (\<lambda>_. 1) (fst (snd (snd (event (\<lambda>_. 1) (add_listener (Some failing) (init 4)) [])))) []))
       = [(0, [1])]"
proof -
  let ?p = "add_listener (Some failing) (init 4)"
  have h1: "Some 1 \<noteq> prev_status ?p" by (simp add: add_listener_def init_def)
  have h2: "fst (fan_out (loggers ?p) 1 0 []) = Some LoggerError"
    by (simp add: add_listener_def init_def failing_def)
  have h3: "fst (snd (fan_out (loggers ?p) 1 0 [])) = [(0, [1])]"
    by (simp add: add_listener_def init_def failing_def)
  note t = raising_logger_not_committed[OF h1 h2, of "[]"]
  have c1: "fst (event (\<lambda>_. 1) ?p []) = Aborted 1 LoggerError"
    using t by blast
  have c4: "fst (snd (event (\<lambda>_. 1) (fst (snd (snd (event (\<lambda>_. 1) ?p [])))) []))
       = fst (snd (fan_out (loggers ?p) 1 0 []))"
    using t by blast
  show ?thesis using h1 h2 c1 c4[unfolded h3] by blast
qed








lemma fan_out_positions:
  "(j, a) \<in> set (fst (snd (fan_out ls s i w))) \<Longrightarrow> i \<le> j \<and> j < i + length ls \<and> ls ! (j - i) \<noteq> None"
proof (induction ls s i w rule: fan_out.induct)
  case (1 status i w)
  then show ?case by simp
next
  case (2 ls status i w)
  then have "Suc i \<le> j \<and> j < Suc i + length ls \<and> ls ! (j - Suc i) \<noteq> None" by simp
  then show ?case by (auto simp: nth_Cons')
next
  case (3 l ls status i w)
  show ?case
  proof (cases "l [status] w")
    case (Pair r w')
    show ?thesis
    proof (cases r)
      case None
      with Pair 3(2) have "(j, a) = (i, [status]) \<or> (j, a) \<in> set (fst (snd (fan_out ls status (Suc i) w')))"
        by (auto simp: case_prod_beta)
      then show ?thesis
      proof
        assume "(j, a) = (i, [status])" then show ?thesis by simp
      next
        assume "(j, a) \<in> set (fst (snd (fan_out ls status (Suc i) w')))"
        from 3(1)[OF Pair[symmetric] None this]
        show ?thesis by (auto simp: nth_Cons')
      qed
    next
      case (Some e)
      with Pair 3(2) show ?thesis by simp
    qed
  qed
qed

lemma fan_out_index:
  "fst (fan_out ls s i w) = fst (fan_out ls s k w)
   \<and> snd (snd (fan_out ls s i w)) = snd (snd (fan_out ls s k w))"
proof (induction ls arbitrary: i k w)
  case Nil
  then show ?case by simp
next
  case (Cons x ls)
  show ?case
  proof (cases x)
    case None
    then show ?thesis using Cons.IH[of "Suc i" w "Suc k"] by simp
  next
    case (Some l)
    obtain r w' where l: "l [s] w = (r, w')" by (cases "l [s] w")
    show ?thesis using Some l Cons.IH[of "Suc i" w' "Suc k"]
      by (cases r) (simp_all add: case_prod_beta)
  qed
qed

lemma fan_out_skip_None:
  "fst (fan_out (xs @ None # ys) s i w) = fst (fan_out (xs @ ys) s i w)
   \<and> snd (snd (fan_out (xs @ None # ys) s i w)) = snd (snd (fan_out (xs @ ys) s i w))"
proof (induction xs arbitrary: i w)
  case Nil
  then show ?case using fan_out_index[of ys s "Suc i" w i] by simp
next
  case (Cons x xs)
  show ?case
  proof (cases x)
    case None
    then show ?thesis using Cons.IH by simp
  next
    case (Some l)
    then show ?thesis using Cons.IH
      by (cases "l [s] w") (auto simp: case_prod_beta split: option.splits)
  qed
qed

lemma never_raises_skip: "never_raises (xs @ None # ys) = never_raises (xs @ ys)"
  by (auto simp: never_raises_def)

text \<open>
  Claim C5. With an empty entry at position \<open>length xs\<close> of the loggers, a changed status
  makes no call at that position; the outcome and the world are those of the same monitor
  without the entry (the entry raises nothing); and when no other logger raises, the call
  completes and every non-empty logger receives \<open>[status]\<close>.
\<close>

theorem empty_logger_skipped:
  assumes "loggers p = xs @ None # ys" and "Some (gs (pin p)) \<noteq> prev_status p"
  shows "length xs \<notin> fst ` set (fst (snd (event gs p w)))
         \<and> fst (event gs p w) = fst (event gs (p\<lparr>loggers := xs @ ys\<rparr>) w)
         \<and> snd (snd (snd (event gs p w))) = snd (snd (snd (event gs (p\<lparr>loggers := xs @ ys\<rparr>) w)))
         \<and> (never_raises (xs @ ys) \<longrightarrow>
              fst (event gs p w) = Completed (gs (pin p))
              \<and> (\<forall>j < length (loggers p). loggers p ! j \<noteq> None \<longrightarrow>
                    (j, [gs (pin p)]) \<in> set (fst (snd (event gs p w)))))"
proof (intro conjI impI allI)
  let ?s = "gs (pin p)"
  let ?q = "p\<lparr>loggers := xs @ ys\<rparr>"
  have q: "Some (gs (pin ?q)) \<noteq> prev_status ?q" using assms(2) by simp
  show "length xs \<notin> fst ` set (fst (snd (event gs p w)))"
  proof
    assume "length xs \<in> fst ` set (fst (snd (event gs p w)))"
    then obtain a where "(length xs, a) \<in> set (fst (snd (fan_out (loggers p) ?s 0 w)))"
      using event_calls[of gs p, OF assms(2)] by force
    from fan_out_positions[OF this] show False using assms(1) by simp
  qed
  show "fst (event gs p w) = fst (event gs ?q w)"
    using fan_out_skip_None[of xs ys ?s 0 w] assms(1)
    by (simp add: event_outcome[of gs p, OF assms(2)] event_outcome[of gs "?q", OF q] split: option.splits)
  show "snd (snd (snd (event gs p w))) = snd (snd (snd (event gs ?q w)))"
    using fan_out_skip_None[of xs ys ?s 0 w] assms(1)
    by (simp add: event_world[of gs p, OF assms(2)] event_world[of gs "?q", OF q])
next
  assume "never_raises (xs @ ys)"
  then have nr: "never_raises (loggers p)" using assms(1) by (simp add: never_raises_skip)
  show "fst (event gs p w) = Completed (gs (pin p))"
    using fan_out_completes[OF nr] by (simp add: event_outcome[of gs p, OF assms(2)])
next
  fix j
  assume "never_raises (xs @ ys)" and j: "j < length (loggers p)" and l: "loggers p ! j \<noteq> None"
  then have nr: "never_raises (loggers p)" using assms(1) by (simp add: never_raises_skip)
  have "(j, loggers p ! j) \<in> set (enumerate 0 (loggers p))"
    using j by (simp add: in_set_enumerate_eq)
  then have "(j, [gs (pin p)]) \<in> set (map (\<lambda>(j, l). (j, [gs (pin p)]))
      (filter (\<lambda>(j, l). l \<noteq> None) (enumerate 0 (loggers p))))"
    using l by force
  then show "(j, [gs (pin p)]) \<in> set (fst (snd (event gs p w)))"
    by (simp only: event_calls[of gs p, OF assms(2)] fan_out_calls[OF nr])
qed

theorem empty_logger_skipped_witness:
  "loggers (fold add_listener [Some recorder, None, Some recorder] (init 4))
     = [Some recorder] @ None # [Some recorder]
   \<and> Some (1::int) \<noteq> prev_status (fold add_listener [Some recorder, None, Some recorder] (init 4))
   \<and> never_raises ([Some recorder] @ [Some recorder])
   \<and> 1 \<notin> fst ` set (fst (snd (event (\<lambda>_. 1) (fold add_listener [Some recorder, None, Some recorder] (init 4)) [])))
   \<and> fst (event (\<lambda>_. 1) (fold add_listener [Some recorder, None, Some recorder] (init 4)) []) = Completed 1
   \<and> snd (snd (snd (event (\<lambda>_. 1) (fold add_listener [Some recorder, None, Some recorder] (init 4)) [])))
       = [[1], [1]]"
proof -
  let ?p = "fold add_listener [Some recorder, None, Some recorder] (init 4)"
  have h1: "loggers ?p = [Some recorder] @ None # [Some recorder]"
    by (simp add: add_listener_def init_def)
  have h2: "Some ((\<lambda>_. 1::int) (pin ?p)) \<noteq> prev_status ?p"
    by (simp add: add_listener_def init_def)
  have h3: "never_raises ([Some recorder] @ [Some recorder])"
    by (simp add: never_raises_def recorder_def)
  have w: "snd (snd (snd (event (\<lambda>_. 1) ?p []))) = [[1], [1]]"
    by (simp add: event_def add_listener_def init_def recorder_def)
  note t = empty_logger_skipped[OF h1 h2, of "[]"]
  have c1: "1 \<notin> fst ` set (fst (snd (event (\<lambda>_. 1) ?p [])))" using t by simp
  have c2: "fst (event (\<lambda>_. 1) ?p []) = Completed 1" using t h3 by blast
  show ?thesis using h1 h2 h3 c1 c2 w by blast
qed

section \<open>Properties of the generator\<close>

lemma on_phase_SomeE:
  assumes "on_phase st = Some st'"
  obtains (accept) r rs n ns where
      "floats (gen st) = r # rs" "r \<ge> 0.2" "ints (gen st) = n # ns"
      "st' = \<lparr>data = data st @
               [\<lparr>entry_ts = ts st + (2700 + int (n mod 6001)), entry_id = sample_id st,
                 entry_event = PUMP_ON\<rparr>],
             ts = ts st + (2700 + int (n mod 6001)),
             sample_id = sample_id st + 1,
             gen = \<lparr>floats = rs, ints = ns\<rparr>\<rparr>"
  | (reject) r rs where
      "floats (gen st) = r # rs" "\<not> r \<ge> 0.2" "st' = st\<lparr>gen := (gen st)\<lparr>floats := rs\<rparr>\<rparr>"
  using assms
  by (auto simp: on_phase_def gen_mainly_on_def gen_random_event_def random_random_def
      random_randint_def PUMP_ON_def PUMP_OFF_def split: list.splits if_splits)

lemma off_phase_SomeE:
  assumes "off_phase st = Some st'"
  obtains (accept) r rs n ns where
      "floats (gen st) = r # rs" "\<not> r \<ge> 0.8" "ints (gen st) = n # ns"
      "st' = \<lparr>data = data st @
               [\<lparr>entry_ts = ts st + int (n mod 601), entry_id = sample_id st,
                 entry_event = PUMP_OFF\<rparr>],
             ts = ts st + int (n mod 601),
             sample_id = sample_id st + 1,
             gen = \<lparr>floats = rs, ints = ns\<rparr>\<rparr>"
  | (reject) r rs where
      "floats (gen st) = r # rs" "r \<ge> 0.8" "st' = st\<lparr>gen := (gen st)\<lparr>floats := rs\<rparr>\<rparr>"
  using assms
  by (auto simp: off_phase_def gen_mainly_off_def gen_random_event_def random_random_def
      random_randint_def PUMP_ON_def PUMP_OFF_def split: list.splits if_splits)

lemma dwell_ok_snoc:
  "dwell_ok prev (xs @ [e]) = (dwell_ok prev xs \<and> dwell_entry (last_ts prev xs) e)"
  by (induction xs arbitrary: prev) (auto simp: last_ts_def)

lemma gen_inv_append:
  assumes "gen_inv now st" and "dwell_entry (ts st) \<lparr>entry_ts = t, entry_id = sample_id st, entry_event = ev\<rparr>"
  shows "gen_inv now \<lparr>data = data st @ [\<lparr>entry_ts = t, entry_id = sample_id st, entry_event = ev\<rparr>],
                      ts = t, sample_id = sample_id st + 1, gen = g\<rparr>"
  using assms by (auto simp: gen_inv_def dwell_ok_snoc last_ts_def)

lemma gen_inv_gen: "gen_inv now (st\<lparr>gen := g\<rparr>) = gen_inv now st"
  by (simp add: gen_inv_def)

lemma on_phase_inv: "on_phase st = Some st' \<Longrightarrow> gen_inv now st \<Longrightarrow> gen_inv now st'"
proof (erule on_phase_SomeE)
  fix r rs n ns
  assume st': "st' = \<lparr>data = data st @
               [\<lparr>entry_ts = ts st + (2700 + int (n mod 6001)), entry_id = sample_id st,
                 entry_event = PUMP_ON\<rparr>],
             ts = ts st + (2700 + int (n mod 6001)),
             sample_id = sample_id st + 1,
             gen = \<lparr>floats = rs, ints = ns\<rparr>\<rparr>" and inv: "gen_inv now st"
  have "n mod 6001 < 6001" by simp
  then have "dwell_entry (ts st) \<lparr>entry_ts = ts st + (2700 + int (n mod 6001)), entry_id = sample_id st,
                 entry_event = PUMP_ON\<rparr>"
    by (simp add: dwell_entry_def)
  from gen_inv_append[OF inv this] st' show "gen_inv now st'" by simp
next
  fix r rs
  assume "st' = st\<lparr>gen := (gen st)\<lparr>floats := rs\<rparr>\<rparr>" and "gen_inv now st"
  then show "gen_inv now st'" by (simp add: gen_inv_gen)
qed

lemma off_phase_inv: "off_phase st = Some st' \<Longrightarrow> gen_inv now st \<Longrightarrow> gen_inv now st'"
proof (erule off_phase_SomeE)
  fix r rs n ns
  assume st': "st' = \<lparr>data = data st @
               [\<lparr>entry_ts = ts st + int (n mod 601), entry_id = sample_id st,
                 entry_event = PUMP_OFF\<rparr>],
             ts = ts st + int (n mod 601),
             sample_id = sample_id st + 1,
             gen = \<lparr>floats = rs, ints = ns\<rparr>\<rparr>" and inv: "gen_inv now st"
  have "n mod 601 < 601" by simp
  then have "dwell_entry (ts st) \<lparr>entry_ts = ts st + int (n mod 601), entry_id = sample_id st,
                 entry_event = PUMP_OFF\<rparr>"
    by (simp add: dwell_entry_def PUMP_ON_def PUMP_OFF_def)
  from gen_inv_append[OF inv this] st' show "gen_inv now st'" by simp
next
  fix r rs
  assume "st' = st\<lparr>gen := (gen st)\<lparr>floats := rs\<rparr>\<rparr>" and "gen_inv now st"
  then show "gen_inv now st'" by (simp add: gen_inv_gen)
qed

lemma cycle_inv: "cycle st = Some st' \<Longrightarrow> gen_inv now st \<Longrightarrow> gen_inv now st'"
  by (auto simp: cycle_def split: option.splits intro: on_phase_inv off_phase_inv)

lemma gen_loop_inv:
  "gen_loop len st = Some d \<Longrightarrow> gen_inv now st \<Longrightarrow>
   \<exists>st'. d = data st' \<and> gen_inv now st' \<and> (len < sample_id st')"
proof (induction len st rule: gen_loop.induct)
  case (1 len st)
  show ?case
  proof (cases "sample_id st \<le> len")
    case True
    with 1(2) obtain st1 where c: "cycle st = Some st1" and l: "gen_loop len st1 = Some d"
      by (auto simp: gen_loop.simps[of len st] split: option.splits)
    from 1(1)[OF True c l cycle_inv[OF c 1(3)]] show ?thesis .
  next
    case False
    with 1(2) have "d = data st" by (simp add: gen_loop.simps[of len st])
    with False 1(3) show ?thesis by auto
  qed
qed

lemma gen_inv_init: "gen_inv now \<lparr>data = [], ts = now, sample_id = 1, gen = g\<rparr>"
  by (simp add: gen_inv_def last_ts_def)

lemma slice_to_take: "\<exists>n. slice_to len xs = take n xs"
  by (auto simp: slice_to_def)

lemma gen_random_samples_SomeD:
  assumes "gen_random_samples len now g = Some d"
  shows "\<exists>st' n. d = take n (data st') \<and> gen_inv now st' \<and> length d = nat len"
proof -
  let ?st = "\<lparr>data = [], ts = now, sample_id = 1, gen = g\<rparr>"
  from assms obtain d0 where d0: "gen_loop len ?st = Some d0" and d: "d = slice_to len d0"
    by (auto simp: gen_random_samples_def split: option.splits)
  from gen_loop_inv[OF d0 gen_inv_init] obtain st' where
    st': "d0 = data st'" "gen_inv now st'" "len < sample_id st'" by blast
  obtain n where n: "slice_to len d0 = take n d0" using slice_to_take by blast
  have "length d = nat len"
  proof (cases "0 \<le> len")
    case True
    have "nat len \<le> length d0" using st' True by (simp add: gen_inv_def)
    with True d show ?thesis by (simp add: slice_to_def)
  next
    case False
    then have "d0 = []" using d0 by (simp add: gen_loop.simps[of len ?st])
    with False d show ?thesis by (simp add: slice_to_def)
  qed
  with d n st' show ?thesis by auto
qed

lemma cycle_Some:
  assumes "floats (gen st) = r1 # r2 # rs" and "ints (gen st) = n1 # n2 # ns"
  shows "\<exists>st'. cycle st = Some st' \<and> floats (gen st') = rs
           \<and> length (data st') = length (data st)
                + ((if r1 \<ge> 0.2 then 1 else 0) + (if r2 \<ge> 0.8 then 0 else 1))
           \<and> length (ints (gen st'))
                + ((if r1 \<ge> 0.2 then 1 else 0) + (if r2 \<ge> 0.8 then 0 else 1))
              = length (ints (gen st))"
  using assms
  by (simp add: cycle_def on_phase_def off_phase_def gen_mainly_on_def gen_mainly_off_def
      gen_random_event_def random_random_def random_randint_def PUMP_ON_def PUMP_OFF_def)

lemma accepted_pos: "0 < accepted fs \<Longrightarrow> \<exists>r1 r2 rs. fs = r1 # r2 # rs"
  by (cases fs rule: accepted.cases) auto

lemma gen_loop_returns:
  "gen_inv now st \<Longrightarrow> nat len \<le> length (data st) + accepted (floats (gen st)) \<Longrightarrow>
   nat len < length (data st) + length (ints (gen st)) \<Longrightarrow> \<exists>d. gen_loop len st = Some d"
proof (induction len st rule: gen_loop.induct)
  case (1 len st)
  show ?case
  proof (cases "sample_id st \<le> len")
    case False
    then show ?thesis by (simp add: gen_loop.simps[of len st])
  next
    case True
    then have lt: "length (data st) < nat len" using 1(2) by (simp add: gen_inv_def)
    then have "0 < accepted (floats (gen st))" using 1(3) by simp
    then obtain r1 r2 rs where fs: "floats (gen st) = r1 # r2 # rs" using accepted_pos by blast
    have "2 \<le> length (ints (gen st))" using lt 1(4) by simp
    then obtain n1 n2 ns where ie: "ints (gen st) = n1 # n2 # ns"
      by (cases "ints (gen st)"; cases "tl (ints (gen st))") auto
    from cycle_Some[OF fs ie] obtain st' where
      c: "cycle st = Some st'" and f': "floats (gen st') = rs"
      and l': "length (data st') = length (data st)
                + ((if r1 \<ge> 0.2 then 1 else 0) + (if r2 \<ge> 0.8 then 0 else 1))"
      and i': "length (ints (gen st'))
                + ((if r1 \<ge> 0.2 then 1 else 0) + (if r2 \<ge> 0.8 then 0 else 1))
              = length (ints (gen st))" by blast
    have a: "nat len \<le> length (data st') + accepted (floats (gen st'))"
      using 1(3) fs f' l' by simp
    have b: "nat len < length (data st') + length (ints (gen st'))"
      using 1(4) l' i' by simp
    from 1(1)[OF True c cycle_inv[OF c 1(2)] a b] obtain d where "gen_loop len st' = Some d" ..
    then show ?thesis using True c by (simp add: gen_loop.simps[of len st])
  qed
qed

text \<open>
  Claim C6. Whenever \<open>gen_random_samples\<close> returns, the list has exactly \<open>length\<close>
  entries (none for a length of 0 or less): the loop leaves at least \<open>length\<close> entries and
  the slice cuts what is beyond. It does return, with such a list, on every random source
  whose draws accept at least \<open>length\<close> candidates; for the length 0 it returns the empty
  list without a draw.
\<close>

theorem gen_random_samples_length:
  "(nat len \<le> accepted (floats g) \<longrightarrow> nat len < length (ints g) \<longrightarrow>
      (\<exists>d. gen_random_samples len now g = Some d \<and> length d = nat len))
   \<and> (\<forall>d. gen_random_samples len now g = Some d \<longrightarrow> length d = nat len)
   \<and> gen_random_samples 0 now g = Some []"
proof (intro conjI impI allI)
  assume a: "nat len \<le> accepted (floats g)" and b: "nat len < length (ints g)"
  let ?st = "\<lparr>data = [], ts = now, sample_id = 1, gen = g\<rparr>"
  from gen_loop_returns[of now ?st len] a b gen_inv_init[of now g]
  obtain d0 where "gen_loop len ?st = Some d0" by auto
  then have r: "gen_random_samples len now g = Some (slice_to len d0)"
    by (simp add: gen_random_samples_def)
  from gen_random_samples_SomeD[OF r] r
  show "\<exists>d. gen_random_samples len now g = Some d \<and> length d = nat len" by blast
next
  fix d assume "gen_random_samples len now g = Some d"
  from gen_random_samples_SomeD[OF this] show "length d = nat len" by blast
next
  show "gen_random_samples 0 now g = Some []"
    by (simp add: gen_random_samples_def gen_loop.simps slice_to_def)
qed

lemma dwell_entry_mono: "dwell_entry prev e \<Longrightarrow> prev \<le> entry_ts e"
  by (auto simp: dwell_entry_def split: if_splits)

lemma dwell_ok_sorted: "dwell_ok prev xs \<Longrightarrow> sorted (prev # map entry_ts xs)"
proof (induction xs arbitrary: prev)
  case Nil
  then show ?case by simp
next
  case (Cons e es)
  then have 1: "prev \<le> entry_ts e" and 2: "sorted (entry_ts e # map entry_ts es)"
    by (auto dest: dwell_entry_mono)
  then show ?case by auto
qed

lemma dwell_ok_take: "dwell_ok prev xs \<Longrightarrow> dwell_ok prev (take n xs)"
proof (induction xs arbitrary: prev n)
  case Nil
  then show ?case by simp
next
  case (Cons e es)
  then show ?case by (cases n) auto
qed

lemma dwell_ok_nth:
  "dwell_ok prev xs \<Longrightarrow> i < length xs \<Longrightarrow>
   dwell_entry (if i = 0 then prev else entry_ts (xs ! (i - 1))) (xs ! i)"
proof (induction xs arbitrary: prev i)
  case Nil
  then show ?case by simp
next
  case (Cons e es)
  show ?case
  proof (cases i)
    case 0
    then show ?thesis using Cons.prems by simp
  next
    case (Suc j)
    then have "dwell_entry (if j = 0 then entry_ts e else entry_ts (es ! (j - 1))) (es ! j)"
      using Cons.IH[of "entry_ts e" j] Cons.prems by simp
    then show ?thesis using Suc by (cases j) auto
  qed
qed

lemmas gen_eval = gen_random_samples_def gen_loop.simps cycle_def on_phase_def off_phase_def
  gen_mainly_on_def gen_mainly_off_def gen_random_event_def random_random_def random_randint_def
  slice_to_def

text \<open>
  A source that rejects both candidates of a turn leaves the loop where it was: the call
  goes on to further draws, and the script below holds none.
\<close>

lemma gen_random_samples_starved:
  "gen_random_samples 1 now \<lparr>floats = [0.1, 0.9], ints = ns\<rparr> = None"
  by (simp add: gen_eval PUMP_ON_def PUMP_OFF_def)

text \<open>
  Claim C7. In every list returned by \<open>gen_random_samples\<close> the sample ids are
  \<open>1, 2, ..., length\<close> in this order, and the timestamps never decrease.
\<close>

theorem gen_random_samples_monotone:
  assumes "gen_random_samples len now g = Some d"
  shows "map entry_id d = map int [1..<Suc (length d)] \<and> sorted (map entry_ts d)"
proof -
  from gen_random_samples_SomeD[OF assms] obtain st' n where
    d: "d = take n (data st')" and inv: "gen_inv now st'" by blast
  have ids: "map entry_id (data st') = map int [1..<Suc (length (data st'))]"
    and dw: "dwell_ok now (data st')" using inv by (simp_all add: gen_inv_def)
  have "map entry_id d = map int [1..<Suc (length d)]"
  proof (rule nth_equalityI)
    show "length (map entry_id d) = length (map int [1..<Suc (length d)])" by (simp del: upt_Suc)
  next
    fix i assume "i < length (map entry_id d)"
    then have i: "i < length d" by simp
    then have i': "i < length (data st')" and i'': "i < n" using d by simp_all
    have "map entry_id (data st') ! i = map int [1..<Suc (length (data st'))] ! i"
      using ids by simp
    then have "entry_id (data st' ! i) = int (Suc i)" using i' by (simp del: upt_Suc)
    then show "map entry_id d ! i = map int [1..<Suc (length d)] ! i"
      using i i'' d by (simp del: upt_Suc)
  qed
  moreover have "sorted (map entry_ts d)"
    using dwell_ok_sorted[OF dwell_ok_take[OF dw, of n]] d by simp
  ultimately show ?thesis by blast
qed

text \<open>
  Claim C8, amended. In every list returned, measured from the entry before it (from the
  start for the first entry), a PUMP_ON entry comes at least 45 and at most 145 minutes
  later, and a PUMP_OFF entry at least 0 and at most 10 minutes later; every entry is one or
  the other.
\<close>

theorem gen_random_samples_dwell:
  assumes "gen_random_samples len now g = Some d"
  shows "\<forall>i < length d.
           (entry_event (d ! i) = PUMP_ON
            \<and> 45 * 60 \<le> entry_ts (d ! i) - (if i = 0 then now else entry_ts (d ! (i - 1)))
            \<and> entry_ts (d ! i) - (if i = 0 then now else entry_ts (d ! (i - 1))) \<le> 145 * 60)
         \<or> (entry_event (d ! i) = PUMP_OFF
            \<and> 0 \<le> entry_ts (d ! i) - (if i = 0 then now else entry_ts (d ! (i - 1)))
            \<and> entry_ts (d ! i) - (if i = 0 then now else entry_ts (d ! (i - 1))) \<le> 10 * 60)"
proof (intro allI impI)
  fix i assume i: "i < length d"
  from gen_random_samples_SomeD[OF assms] obtain st' n where
    d: "d = take n (data st')" and inv: "gen_inv now st'" by blast
  have "dwell_ok now d" using inv d by (simp add: gen_inv_def dwell_ok_take)
  from dwell_ok_nth[OF this i]
  show "(entry_event (d ! i) = PUMP_ON
            \<and> 45 * 60 \<le> entry_ts (d ! i) - (if i = 0 then now else entry_ts (d ! (i - 1)))
            \<and> entry_ts (d ! i) - (if i = 0 then now else entry_ts (d ! (i - 1))) \<le> 145 * 60)
         \<or> (entry_event (d ! i) = PUMP_OFF
            \<and> 0 \<le> entry_ts (d ! i) - (if i = 0 then now else entry_ts (d ! (i - 1)))
            \<and> entry_ts (d ! i) - (if i = 0 then now else entry_ts (d ! (i - 1))) \<le> 10 * 60)"
    by (simp only: dwell_entry_def split: if_splits) auto
qed

text \<open>Three entries asked: two full turns of the loop give four, and the slice keeps three.\<close>

theorem gen_random_samples_length_witness:
  "nat 3 \<le> accepted (floats \<lparr>floats = [0.5, 0.5, 0.5, 0.5], ints = [6000, 600, 6001, 601]\<rparr>)
   \<and> nat 3 < length (ints \<lparr>floats = [0.5, 0.5, 0.5, 0.5], ints = [6000, 600, 6001, 601]\<rparr>)
   \<and> gen_random_samples 3 0 \<lparr>floats = [0.5, 0.5, 0.5, 0.5], ints = [6000, 600, 6001, 601]\<rparr> =
       Some [\<lparr>entry_ts = 8700, entry_id = 1, entry_event = PUMP_ON\<rparr>,
             \<lparr>entry_ts = 9300, entry_id = 2, entry_event = PUMP_OFF\<rparr>,
             \<lparr>entry_ts = 12000, entry_id = 3, entry_event = PUMP_ON\<rparr>]
   \<and> length [\<lparr>entry_ts = 8700, entry_id = 1, entry_event = PUMP_ON\<rparr>,
             \<lparr>entry_ts = 9300, entry_id = 2, entry_event = PUMP_OFF\<rparr>,
             \<lparr>entry_ts = 12000, entry_id = 3, entry_event = PUMP_ON\<rparr>] = nat 3
   \<and> gen_loop 3 \<lparr>data = [], ts = 0, sample_id = 1,
         gen = \<lparr>floats = [0.5, 0.5, 0.5, 0.5], ints = [6000, 600, 6001, 601]\<rparr>\<rparr> =
       Some [\<lparr>entry_ts = 8700, entry_id = 1, entry_event = PUMP_ON\<rparr>,
             \<lparr>entry_ts = 9300, entry_id = 2, entry_event = PUMP_OFF\<rparr>,
             \<lparr>entry_ts = 12000, entry_id = 3, entry_event = PUMP_ON\<rparr>,
             \<lparr>entry_ts = 12000, entry_id = 4, entry_event = PUMP_OFF\<rparr>]"
proof -
  let ?g = "\<lparr>floats = [0.5, 0.5, 0.5, 0.5], ints = [6000, 600, 6001, 601]\<rparr>"
  have h1: "nat 3 \<le> accepted (floats ?g)" by simp
  have h2: "nat 3 < length (ints ?g)" by simp
  have e: "gen_random_samples 3 0 ?g =
       Some [\<lparr>entry_ts = 8700, entry_id = 1, entry_event = PUMP_ON\<rparr>,
             \<lparr>entry_ts = 9300, entry_id = 2, entry_event = PUMP_OFF\<rparr>,
             \<lparr>entry_ts = 12000, entry_id = 3, entry_event = PUMP_ON\<rparr>]"
    by (simp add: gen_eval PUMP_ON_def PUMP_OFF_def)
  have l: "gen_loop 3 \<lparr>data = [], ts = 0, sample_id = 1, gen = ?g\<rparr> =
       Some [\<lparr>entry_ts = 8700, entry_id = 1, entry_event = PUMP_ON\<rparr>,
             \<lparr>entry_ts = 9300, entry_id = 2, entry_event = PUMP_OFF\<rparr>,
             \<lparr>entry_ts = 12000, entry_id = 3, entry_event = PUMP_ON\<rparr>,
             \<lparr>entry_ts = 12000, entry_id = 4, entry_event = PUMP_OFF\<rparr>]"
    by (simp add: gen_eval PUMP_ON_def PUMP_OFF_def)
  from gen_random_samples_length[of 3 ?g 0] h1 h2 e l show ?thesis by simp
qed

text \<open>PUMP_ON and PUMP_OFF, then a lost PUMP_ON and another PUMP_OFF.\<close>

theorem gen_random_samples_monotone_witness:
  "gen_random_samples 3 0 \<lparr>floats = [0.5, 0.5, 0.1, 0.5], ints = [0, 600, 7, 8]\<rparr> =
       Some [\<lparr>entry_ts = 2700, entry_id = 1, entry_event = PUMP_ON\<rparr>,
             \<lparr>entry_ts = 3300, entry_id = 2, entry_event = PUMP_OFF\<rparr>,
             \<lparr>entry_ts = 3307, entry_id = 3, entry_event = PUMP_OFF\<rparr>]
   \<and> map entry_id [\<lparr>entry_ts = 2700, entry_id = 1, entry_event = PUMP_ON\<rparr>,
             \<lparr>entry_ts = 3300, entry_id = 2, entry_event = PUMP_OFF\<rparr>,
             \<lparr>entry_ts = 3307, entry_id = 3, entry_event = PUMP_OFF\<rparr>] = [1, 2, 3]
   \<and> sorted (map entry_ts [\<lparr>entry_ts = 2700, entry_id = 1, entry_event = PUMP_ON\<rparr>,
             \<lparr>entry_ts = 3300, entry_id = 2, entry_event = PUMP_OFF\<rparr>,
             \<lparr>entry_ts = 3307, entry_id = 3, entry_event = PUMP_OFF\<rparr>])"
proof -
  let ?g = "\<lparr>floats = [0.5, 0.5, 0.1, 0.5], ints = [0, 600, 7, 8]\<rparr>"
  have e: "gen_random_samples 3 0 ?g =
       Some [\<lparr>entry_ts = 2700, entry_id = 1, entry_event = PUMP_ON\<rparr>,
             \<lparr>entry_ts = 3300, entry_id = 2, entry_event = PUMP_OFF\<rparr>,
             \<lparr>entry_ts = 3307, entry_id = 3, entry_event = PUMP_OFF\<rparr>]"
    by (simp add: gen_eval PUMP_ON_def PUMP_OFF_def)
  from gen_random_samples_monotone[OF e] e show ?thesis by simp
qed

text \<open>
  Claim C8 says that a PUMP_OFF entry comes strictly less than 10 minutes after the entry
  before it, and that the delay of a PUMP_ON entry beyond 45 minutes is less than 100
  minutes. \<open>randint\<close> includes its upper end: with the draws 6000 and 600 the PUMP_ON
  entry is 45 + 100 minutes after the start and the PUMP_OFF entry exactly 10 minutes
  (600 seconds) after it.
\<close>

theorem off_gap_ten_minutes_counterexample:
  "gen_random_samples 2 0 \<lparr>floats = [0.5, 0.5], ints = [6000, 600]\<rparr> =
       Some [\<lparr>entry_ts = 8700, entry_id = 1, entry_event = PUMP_ON\<rparr>,
             \<lparr>entry_ts = 9300, entry_id = 2, entry_event = PUMP_OFF\<rparr>]
   \<and> \<not> (9300 - 8700 < (10 * 60 :: int))
   \<and> \<not> (8700 - 0 - 45 * 60 < (100 * 60 :: int))"
  by (simp add: gen_eval PUMP_ON_def PUMP_OFF_def)

theorem gen_random_samples_dwell_witness:
  "gen_random_samples 2 0 \<lparr>floats = [0.5, 0.5, 0.5, 0.5], ints = [30, 20, 1, 1]\<rparr> =
       Some [\<lparr>entry_ts = 2730, entry_id = 1, entry_event = PUMP_ON\<rparr>,
             \<lparr>entry_ts = 2750, entry_id = 2, entry_event = PUMP_OFF\<rparr>]
   \<and> 45 * 60 \<le> (2730 - 0 :: int) \<and> (2730 - 0 :: int) \<le> 145 * 60
   \<and> 0 \<le> (2750 - 2730 :: int) \<and> (2750 - 2730 :: int) \<le> 10 * 60"
proof -
  let ?g = "\<lparr>floats = [0.5, 0.5, 0.5, 0.5], ints = [30, 20, 1, 1]\<rparr>"
  let ?d = "[\<lparr>entry_ts = 2730, entry_id = 1, entry_event = PUMP_ON\<rparr>,
             \<lparr>entry_ts = 2750, entry_id = 2, entry_event = PUMP_OFF\<rparr>]"
  have e: "gen_random_samples 2 0 ?g = Some ?d"
    by (simp add: gen_eval PUMP_ON_def PUMP_OFF_def)
  have i0: "0 < length ?d" and i1: "1 < length ?d" by simp_all
  from gen_random_samples_dwell[OF e, rule_format, OF i0]
    gen_random_samples_dwell[OF e, rule_format, OF i1] e
  show ?thesis by (simp add: PUMP_ON_def PUMP_OFF_def)
qed

text \<open>
  Claim C10. The list returned need not alternate: for some draws and a length of at least
  2, a PUMP_OFF entry is followed by another PUMP_OFF entry (the PUMP_ON candidate between
  them was rejected).
\<close>

theorem gen_random_samples_not_alternating:
  "\<exists>len now g d i. 2 \<le> len \<and> gen_random_samples len now g = Some d \<and> Suc i < length d
     \<and> entry_event (d ! i) = PUMP_OFF \<and> entry_event (d ! Suc i) = PUMP_OFF"
proof -
  let ?g = "\<lparr>floats = [0.5, 0.5, 0.1, 0.5], ints = [0, 600, 7, 8]\<rparr>"
  let ?d = "[\<lparr>entry_ts = 2700, entry_id = 1, entry_event = PUMP_ON\<rparr>,
             \<lparr>entry_ts = 3300, entry_id = 2, entry_event = PUMP_OFF\<rparr>,
             \<lparr>entry_ts = 3307, entry_id = 3, entry_event = PUMP_OFF\<rparr>]"
  have e: "gen_random_samples 3 0 ?g = Some ?d"
    by (simp add: gen_eval PUMP_ON_def PUMP_OFF_def)
  have "(2::int) \<le> 3 \<and> gen_random_samples 3 0 ?g = Some ?d \<and> Suc 1 < length ?d
     \<and> entry_event (?d ! 1) = PUMP_OFF \<and> entry_event (?d ! Suc 1) = PUMP_OFF"
    using e by simp
  then show ?thesis by blast
qed

lemma on_accepted_iff: "on_accepted r = (0.2 \<le> r)"
  by (simp add: on_accepted_def one_draw_def gen_mainly_on_def gen_random_event_def
      random_random_def PUMP_ON_def PUMP_OFF_def)

lemma off_accepted_iff: "off_accepted r = (r < 0.8)"
  by (auto simp: off_accepted_def one_draw_def gen_mainly_off_def gen_random_event_def
      random_random_def PUMP_ON_def PUMP_OFF_def)

lemma grid_on: "0 < m \<Longrightarrow> grid_count on_accepted (5 * m) = 4 * m"
proof -
  assume m: "0 < m"
  have "{k. on_accepted (real k / real (5 * m))} \<inter> set [0..<5 * m] = {m..<5 * m}"
    using m by (auto simp: on_accepted_iff field_simps)
  then show ?thesis by (simp add: grid_count_def distinct_length_filter)
qed

lemma grid_off: "0 < m \<Longrightarrow> grid_count off_accepted (5 * m) = 4 * m"
proof -
  assume m: "0 < m"
  have "{k. off_accepted (real k / real (5 * m))} \<inter> set [0..<5 * m] = {0..<4 * m}"
    using m by (auto simp: off_accepted_iff field_simps)
  then show ?thesis by (simp add: grid_count_def distinct_length_filter)
qed

text \<open>
  Claim C9 says that \<open>gen_mainly_off\<close> returns PUMP_OFF on draws of measure 0.2. Of the
  ten draws \<open>0, 0.1, ..., 0.9\<close> it returns PUMP_OFF on eight, not on two.
\<close>

theorem off_accepted_counterexample:
  "grid_count off_accepted 10 = 8 \<and> grid_count off_accepted 10 \<noteq> 2
   \<and> off_accepted 0 \<and> off_accepted 0.5 \<and> off_accepted 0.79"
  using grid_off[of 2] by (simp add: off_accepted_iff)

text \<open>
  Claim C9, amended. For a draw \<open>r\<close> of the interval from 0 (included) to 1 (excluded),
  \<open>gen_mainly_on\<close> returns PUMP_ON exactly when \<open>0.2 \<le> r\<close>, and \<open>gen_mainly_off\<close> returns
  PUMP_OFF exactly when \<open>r < 0.8\<close>: each candidate is accepted on an interval of length 0.8
  and rejected on one of length 0.2. On \<open>5 * m\<close> equally spaced draws, \<open>4 * m\<close> are accepted
  by each.
\<close>

theorem acceptance_measures:
  "{r. 0 \<le> r \<and> r < 1 \<and> on_accepted r} = {0.2..<1}
   \<and> {r. 0 \<le> r \<and> r < 1 \<and> off_accepted r} = {0..<0.8}
   \<and> (0 < m \<longrightarrow> grid_count on_accepted (5 * m) = 4 * m \<and> grid_count off_accepted (5 * m) = 4 * m)"
  using grid_on[of m] grid_off[of m] by (auto simp: on_accepted_iff off_accepted_iff)

theorem acceptance_measures_witness:
  "(0::nat) < 2 \<and> grid_count on_accepted 10 = 8 \<and> grid_count off_accepted 10 = 8"
  using acceptance_measures[of 2] by simp

end
